theory Spec2Isabelle
  imports Main "HOL-Library.Sublist" "HOL-Library.AList"
begin

section \<open>Python strings\<close>

text \<open>
  The modem speaks 7-bit text. A Python \<open>str\<close> is modelled as a \<open>string\<close> (a list of
  8-bit characters); the character classes and \<open>str.lower\<close> below are Python's on
  the ASCII range, and a character above 127 belongs to no class and is left alone by
  \<open>lower\<close>.
\<close>

definition lower_char :: "char \<Rightarrow> char" where
  "lower_char c =
     (let n = (of_char c :: nat) in if 65 \<le> n \<and> n \<le> 90 then char_of (n + 32) else c)"

definition lower :: "string \<Rightarrow> string" where
  "lower s = map lower_char s"

text \<open>
  \<open>s.replace(old, new)\<close>: the occurrences of \<open>old\<close> are found scanning from the left and
  do not overlap. With an empty \<open>old\<close> Python puts \<open>new\<close> before every character and at
  the end.
\<close>

fun py_replace :: "string \<Rightarrow> string \<Rightarrow> string \<Rightarrow> string" where
  "py_replace [] new s = new @ concat (map (\<lambda>c. c # new) s)"
| "py_replace old new [] = []"
| "py_replace old new (c # cs) =
     (if prefix old (c # cs) then new @ py_replace old new (drop (length old) (c # cs))
      else c # py_replace old new cs)"

text \<open>\<open>data.endswith(text)\<close> and \<open>label in data\<close>.\<close>

definition endswith :: "string \<Rightarrow> string \<Rightarrow> bool" where
  "endswith s t = suffix t s"

definition contains :: "string \<Rightarrow> string \<Rightarrow> bool" where
  "contains s t = sublist t s"

definition is_space :: "char \<Rightarrow> bool" where
  "is_space c = (let n = (of_char c :: nat) in (9 \<le> n \<and> n \<le> 13) \<or> (28 \<le> n \<and> n \<le> 32))"

definition is_digit :: "char \<Rightarrow> bool" where
  "is_digit c = (let n = (of_char c :: nat) in 48 \<le> n \<and> n \<le> 57)"

definition is_word :: "char \<Rightarrow> bool" where
  "is_word c =
     (let n = (of_char c :: nat)
      in (48 \<le> n \<and> n \<le> 57) \<or> (65 \<le> n \<and> n \<le> 90) \<or> (97 \<le> n \<and> n \<le> 122) \<or> n = 95)"

section \<open>The key built from a label or a description\<close>

text \<open>
  Lines 115 and 146: \<open>value["label"].lower().replace("  ", " ").replace(" ", "_")\<close>.
  Line 149, for a field with a description: \<open>desc.lower().replace(" ", "_")\<close>.
\<close>

definition key_of_label :: "string \<Rightarrow> string" where
  "key_of_label l = py_replace '' '' ''_'' (py_replace ''  '' '' '' (lower l))"

definition key_of_desc :: "string \<Rightarrow> string" where
  "key_of_desc d = py_replace '' '' ''_'' (lower d)"

text \<open>
  The normalizer in the words of the specification: lowercase, collapse any run of
  two or more spaces to a single space, replace spaces with underscores. It is compared
  with \<open>key_of_label\<close> below.
\<close>

fun collapse_spaces :: "string \<Rightarrow> string" where
  "collapse_spaces (a # b # cs) =
     (if a = CHR '' '' \<and> b = CHR '' '' then collapse_spaces (b # cs)
      else a # collapse_spaces (b # cs))"
| "collapse_spaces cs = cs"

definition normalize_spec :: "string \<Rightarrow> string" where
  "normalize_spec t =
     map (\<lambda>c. if c = CHR '' '' then CHR ''_'' else c) (collapse_spaces (map lower_char t))"

section \<open>Values, exceptions and coercions\<close>

datatype pyval = VStr string | VInt int | VBool bool

text \<open>
  The exceptions the program can meet. \<open>CancelledError\<close> and \<open>KeyboardInterrupt\<close> derive
  from \<open>BaseException\<close> only, so \<open>except Exception\<close> does not catch them.
\<close>

datatype py_exception =
    Exception string
  | TypeError
  | UnboundLocalError
  | ValueError
  | IndexError
  | ConnectionRefusedError
  | ConnectionResetError
  | TimeoutError
  | CancelledError
  | KeyboardInterrupt

fun is_Exception :: "py_exception \<Rightarrow> bool" where
  "is_Exception CancelledError = False"
| "is_Exception KeyboardInterrupt = False"
| "is_Exception e = True"

text \<open>
  \<open>int(s)\<close> in base 10: surrounding whitespace is stripped (in 7-bit text: tab, line
  feed, vertical tab, form feed, carriage return and space), one sign may lead, and the
  digits may be grouped by single underscores. Python's integers are unbounded, but
  \<open>int\<close> refuses a string with more digits than its limit, by default
  \<open>sys.int_info.default_max_str_digits = 4300\<close>, with \<open>ValueError\<close>; signs and
  underscores do not count as digits.
\<close>

definition int_space :: "char \<Rightarrow> bool" where
  "int_space c = (let n = (of_char c :: nat) in (9 \<le> n \<and> n \<le> 13) \<or> n = 32)"

definition strip :: "string \<Rightarrow> string" where
  "strip s = rev (dropWhile int_space (rev (dropWhile int_space s)))"

fun digit_groups :: "string \<Rightarrow> bool" where
  "digit_groups [] = False"
| "digit_groups [c] = is_digit c"
| "digit_groups (c # d # cs) =
     (is_digit c \<and> (if d = CHR ''_'' then digit_groups cs else digit_groups (d # cs)))"

definition decimal :: "string \<Rightarrow> int" where
  "decimal ds = foldl (\<lambda>a c. 10 * a + (int (of_char c) - 48)) 0 ds"

definition int_max_str_digits :: nat where
  "int_max_str_digits = 4300"

definition py_int :: "string \<Rightarrow> py_exception + int" where
  "py_int s =
     (let t = strip s;
          neg = (t \<noteq> [] \<and> hd t = CHR ''-'');
          body = (if t \<noteq> [] \<and> (hd t = CHR ''-'' \<or> hd t = CHR ''+'') then tl t else t)
      in if digit_groups body
         then (if length (filter is_digit body) \<le> int_max_str_digits
               then Inr ((if neg then - 1 else 1) * decimal (filter is_digit body))
               else Inl ValueError)
         else Inl ValueError)"

text \<open>\<open>bool(s)\<close> of a string: true unless the string is empty.\<close>

definition py_bool :: "string \<Rightarrow> bool" where
  "py_bool s = (s \<noteq> [])"

datatype coercion = CoerceInt | CoerceBool

fun apply_coerce :: "coercion option \<Rightarrow> string \<Rightarrow> py_exception + pyval" where
  "apply_coerce None s = Inr (VStr s)"
| "apply_coerce (Some CoerceInt) s = (case py_int s of Inl e \<Rightarrow> Inl e | Inr n \<Rightarrow> Inr (VInt n))"
| "apply_coerce (Some CoerceBool) s = Inr (VBool (py_bool s))"

section \<open>The field tables\<close>

record field =
  label :: string
  unit :: "string option"
  desc :: "string option"
  coerce :: "coercion option"

definition fld :: "string \<Rightarrow> string option \<Rightarrow> string option \<Rightarrow> coercion option \<Rightarrow> field" where
  "fld l u d c = \<lparr>label = l, unit = u, desc = d, coerce = c\<rparr>"

definition VIGOR_130_VALUES :: "field list" where
  "VIGOR_130_VALUES =
    [fld ''Running Mode'' None None None,
     fld ''State'' None None None,
     fld ''Power Management Mode'' None None None,
     fld ''DS Actual Rate'' (Some ''bps'') None (Some CoerceInt),
     fld ''DS Attainable Rate'' (Some ''bps'') None (Some CoerceInt),
     fld ''DS Interleave Depth'' None None (Some CoerceInt),
     fld ''NE Current Attenuation'' (Some ''dB'') None (Some CoerceInt),
     fld ''NE CRC Count'' None None (Some CoerceInt),
     fld ''NE ES Count'' None None (Some CoerceInt),
     fld ''US Actual Rate'' (Some ''bps'') None (Some CoerceInt),
     fld ''US Attainable Rate'' (Some ''bps'') None (Some CoerceInt),
     fld ''US Interleave Depth'' None None (Some CoerceInt),
     fld ''Cur SNR Margin'' (Some ''dB'') None (Some CoerceInt),
     fld ''FE CRC Count'' None None (Some CoerceInt),
     fld ''FE  ES Count'' None None (Some CoerceInt),
     fld ''Far Current Attenuation'' (Some ''dB'') None (Some CoerceInt),
     fld ''Far SNR Margin'' (Some ''dB'') None (Some CoerceInt),
     fld ''Xdsl Reset Times'' None None (Some CoerceInt),
     fld ''Xdsl Link  Times'' None None (Some CoerceInt)]"

definition VIGOR_130_MORE_VALUES :: "field list" where
  "VIGOR_130_MORE_VALUES =
    [fld ''Trellis'' None None (Some CoerceBool),
     fld ''Bitswap'' None None (Some CoerceBool),
     fld ''ReTxEnable'' None None (Some CoerceBool),
     fld ''VirtualNoise'' None None (Some CoerceBool),
     fld ''LOS'' None (Some ''Loss Of Signal Count'') (Some CoerceInt),
     fld ''LOF'' None (Some ''Loss Of Frame Count'') (Some CoerceInt),
     fld ''LPR'' None (Some ''Loss Of Power Count'') (Some CoerceInt),
     fld ''LOM'' None (Some ''Loss Of Margin Count'') (Some CoerceInt),
     fld ''SosSuccess'' None (Some ''Successful SOS Procedure Count'') (Some CoerceInt),
     fld ''NCD'' None (Some ''No Cell Delineation Failure Count'') (Some CoerceInt),
     fld ''LCD'' None (Some ''Loss Of Cell Delineation Failure Count'') (Some CoerceInt),
     fld ''FECS'' None (Some ''Forward Error Correction Seconds'') (Some CoerceInt),
     fld ''ES'' None (Some ''Errored Seconds'') (Some CoerceInt),
     fld ''SES'' None (Some ''Severely Errored Seconds'') (Some CoerceInt),
     fld ''LOSS'' None (Some ''Loss Of Signal Seconds'') (Some CoerceInt),
     fld ''UAS'' None (Some ''Unavailable Seconds'') (Some CoerceInt),
     fld ''HECError'' None (Some ''Header Error Check Error Count'') (Some CoerceInt),
     fld ''CRC'' None (Some ''CRC Error Count'') (Some CoerceInt),
     fld ''INP'' None (Some ''Impulse Noise Protection'') (Some CoerceInt),
     fld ''InterleaveDelay'' None (Some ''Interleave Delay'') (Some CoerceInt),
     fld ''NFEC'' None None (Some CoerceInt),
     fld ''RFEC'' None None (Some CoerceInt),
     fld ''LSYMB'' None None (Some CoerceInt),
     fld ''INTLVBLOCK'' None None (Some CoerceInt)]"

section \<open>The regular expressions of the extraction\<close>

text \<open>
  The two patterns are built by \<open>format\<close> from a label (and a unit). Every label and unit
  of the tables is made of letters, digits and spaces, so it stands in the pattern as a
  literal. A pattern is a sequence of items: a literal, one character of a class
  (\<open>\s\<close>), one or more characters of a class (\<open>\s+\<close>), and a capturing group of one
  or more characters of a class (\<open>(\w+)\<close>, \<open>(\d+)\<close>).
\<close>

datatype cls = Space | Word | Digit

fun in_cls :: "cls \<Rightarrow> char \<Rightarrow> bool" where
  "in_cls Space c = is_space c"
| "in_cls Word c = is_word c"
| "in_cls Digit c = is_digit c"

datatype item = Lit string | One cls | Plus cls | Group cls

text \<open>
  \<open>+\<close> is greedy and backtracks: the longest run is tried first, then one character
  less, down to one character. \<open>backtrack k s n\<close> gives the first length from \<open>n\<close> down
  for which the rest of the pattern \<open>k\<close> matches what follows, with the groups of the rest.
\<close>

fun backtrack :: "(string \<Rightarrow> string list option) \<Rightarrow> string \<Rightarrow> nat \<Rightarrow> (nat \<times> string list) option" where
  "backtrack k s 0 = None"
| "backtrack k s (Suc n) =
     (case k (drop (Suc n) s) of
        Some gs \<Rightarrow> Some (Suc n, gs)
      | None \<Rightarrow> backtrack k s n)"

fun match_item :: "item \<Rightarrow> (string \<Rightarrow> string list option) \<Rightarrow> string \<Rightarrow> string list option" where
  "match_item (Lit l) k s = (if prefix l s then k (drop (length l) s) else None)"
| "match_item (One c) k s =
     (case s of [] \<Rightarrow> None | x # xs \<Rightarrow> if in_cls c x then k xs else None)"
| "match_item (Plus c) k s =
     (case backtrack k s (length (takeWhile (in_cls c) s)) of
        None \<Rightarrow> None
      | Some (n, gs) \<Rightarrow> Some gs)"
| "match_item (Group c) k s =
     (case backtrack k s (length (takeWhile (in_cls c) s)) of
        None \<Rightarrow> None
      | Some (n, gs) \<Rightarrow> Some (take n s # gs))"

text \<open>\<open>match_here r s\<close>: the pattern matches at the start of \<open>s\<close>; the result is the groups.\<close>

primrec match_here :: "item list \<Rightarrow> string \<Rightarrow> string list option" where
  "match_here [] = (\<lambda>s. Some [])"
| "match_here (it # r) = match_item it (match_here r)"

text \<open>\<open>re.search\<close>: the first position, from the left, at which the pattern matches.\<close>

fun re_search :: "item list \<Rightarrow> string \<Rightarrow> string list option" where
  "re_search r [] = match_here r []"
| "re_search r (c # cs) =
     (case match_here r (c # cs) of
        Some gs \<Rightarrow> Some gs
      | None \<Rightarrow> re_search r cs)"

text \<open>
  Line 121: \<open>"{}\s+:\s+(\w+)\s".format(label)\<close>, and with a unit \<open>"+" + unit\<close> is
  appended (line 125), which turns the last \<open>\s\<close> into \<open>\s+\<close>.
  Line 151: \<open>"{}\s+:\s+(\d+)\s+(\d+)".format(label)\<close>.
\<close>

definition basic_regex :: "field \<Rightarrow> item list" where
  "basic_regex v =
     (case unit v of
        None \<Rightarrow> [Lit (label v), Plus Space, Lit '':'', Plus Space, Group Word, One Space]
      | Some u \<Rightarrow>
          if u = [] then [Lit (label v), Plus Space, Lit '':'', Plus Space, Group Word, One Space]
          else [Lit (label v), Plus Space, Lit '':'', Plus Space, Group Word, Plus Space, Lit u])"

definition more_regex :: "field \<Rightarrow> item list" where
  "more_regex v =
     [Lit (label v), Plus Space, Lit '':'', Plus Space, Group Digit, Plus Space, Group Digit]"

section \<open>The reader and \<open>read_until\<close>\<close>

text \<open>
  The reader is the script of what its successive \<open>read\<close> calls give: a chunk of text, or
  an exception. Past the end of the script the stream is at its end and \<open>read\<close> gives
  the empty string.
\<close>

datatype read_result = Chunk string | Fails py_exception

type_synonym reader = "read_result list"

fun reader_read :: "reader \<Rightarrow> (py_exception + string) \<times> reader" where
  "reader_read [] = (Inr [], [])"
| "reader_read (Chunk s # rd) = (Inr s, rd)"
| "reader_read (Fails e # rd) = (Inl e, rd)"

text \<open>
  Lines 61 to 75. \<open>retries\<close> counts down from its default 5; every call of the program
  uses the default. The sleep between two reads changes no value and is left out.
\<close>

fun read_until :: "reader \<Rightarrow> string \<Rightarrow> nat \<Rightarrow> (py_exception + string) \<times> reader" where
  "read_until rd txt 0 = (Inl (Exception ''Did not find expected text''), rd)"
| "read_until rd txt (Suc retries) =
     (case reader_read rd of
        (Inl e, rd') \<Rightarrow> (Inl e, rd')
      | (Inr dat, rd') \<Rightarrow>
          if endswith dat txt then (Inr dat, rd') else read_until rd' txt retries)"

section \<open>\<open>get_vigor_stats\<close>\<close>

text \<open>
  The \<open>try\<close> block, lines 81 to 103. Its state: the exception that left it, if any; the
  variable \<open>data\<close> (\<open>None\<close> until line 98 assigns it); the variable \<open>more_data\<close> (unbound,
  here \<open>None\<close>, until line 103 assigns it); and what was written to the writer.
\<close>

record session =
  raised :: "py_exception option"
  data :: "string option"
  more_data :: "string option"
  written :: "string list"

definition CRLF :: string where
  "CRLF = [CHR 0x0D, CHR 0x0A]"

definition try_block :: "string \<Rightarrow> string \<Rightarrow> reader \<Rightarrow> session" where
  "try_block username password rd =
     (case read_until rd ''Account:'' 5 of
        (Inl e, rd1) \<Rightarrow> \<lparr>raised = Some e, data = None, more_data = None, written = []\<rparr>
      | (Inr a, rd1) \<Rightarrow>
     (case read_until rd1 ''Password: '' 5 of
        (Inl e, rd2) \<Rightarrow>
          \<lparr>raised = Some e, data = None, more_data = None, written = [username @ CRLF]\<rparr>
      | (Inr b, rd2) \<Rightarrow>
     (case read_until rd2 ''> '' 5 of
        (Inl e, rd3) \<Rightarrow>
          \<lparr>raised = Some e, data = None, more_data = None,
           written = [username @ CRLF, password @ CRLF]\<rparr>
      | (Inr c, rd3) \<Rightarrow>
     (case reader_read rd3 of
        (Inl e, rd4) \<Rightarrow>
          \<lparr>raised = Some e, data = None, more_data = None,
           written = [username @ CRLF, password @ CRLF, ''vdsl status'' @ CRLF]\<rparr>
      | (Inr d, rd4) \<Rightarrow>
     (case reader_read rd4 of
        (Inl e, rd5) \<Rightarrow>
          \<lparr>raised = Some e, data = Some d, more_data = None,
           written = [username @ CRLF, password @ CRLF, ''vdsl status'' @ CRLF,
                      ''vdsl status more'' @ CRLF]\<rparr>
      | (Inr m, rd5) \<Rightarrow>
          \<lparr>raised = None, data = Some d, more_data = Some m,
           written = [username @ CRLF, password @ CRLF, ''vdsl status'' @ CRLF,
                      ''vdsl status more'' @ CRLF]\<rparr>)))))"

text \<open>
  The output dictionary keeps its keys in the order of their first insertion; it is an
  association list, and \<open>output[key] = v\<close> is \<open>AList.update\<close>.

  The first loop, lines 112 to 138. \<open>match.group(1)\<close> is the first group; the coercion
  is not guarded, so its exception leaves the loop and the function.
\<close>

type_synonym record_dict = "(string \<times> pyval) list"

fun parse_basic :: "string \<Rightarrow> field list \<Rightarrow> record_dict \<Rightarrow> py_exception + record_dict" where
  "parse_basic dat [] output = Inr output"
| "parse_basic dat (v # vs) output =
     (if \<not> contains dat (label v) then parse_basic dat vs output
      else
        (case re_search (basic_regex v) dat of
           None \<Rightarrow> parse_basic dat vs output
         | Some [] \<Rightarrow> Inl IndexError
         | Some (g1 # gs) \<Rightarrow>
             (case apply_coerce (coerce v) g1 of
                Inl e \<Rightarrow> Inl e
              | Inr converted \<Rightarrow>
                  parse_basic dat vs (AList.update (key_of_label (label v)) converted output))))"

text \<open>
  The second loop, lines 145 to 167. The key is built from the description when the field
  has one (a non-empty one: line 148 tests its truth), from the label otherwise.
\<close>

definition more_key :: "field \<Rightarrow> string" where
  "more_key v =
     (case desc v of
        None \<Rightarrow> key_of_label (label v)
      | Some d \<Rightarrow> if d = [] then key_of_label (label v) else key_of_desc d)"

fun parse_more :: "string \<Rightarrow> field list \<Rightarrow> record_dict \<Rightarrow> py_exception + record_dict" where
  "parse_more dat [] output = Inr output"
| "parse_more dat (v # vs) output =
     (case re_search (more_regex v) dat of
        None \<Rightarrow> parse_more dat vs output
      | Some (g1 # g2 # gs) \<Rightarrow>
          (case apply_coerce (coerce v) g1 of
             Inl e \<Rightarrow> Inl e
           | Inr near_end \<Rightarrow>
               (case apply_coerce (coerce v) g2 of
                  Inl e \<Rightarrow> Inl e
                | Inr far_end \<Rightarrow>
                    parse_more dat vs
                      (AList.update (more_key v @ ''_far'') far_end
                        (AList.update (more_key v @ ''_near'') near_end output))))
      | Some gs \<Rightarrow> Inl IndexError)"

text \<open>
  What a run of \<open>get_vigor_stats\<close> ends in: an exception that leaves the function, or the
  record it prints.
\<close>

datatype outcome = Raised py_exception | Printed record_dict

text \<open>
  Lines 108 to 169, from the variables the \<open>try\<close> block left. \<open>len(data)\<close> on line 111
  raises \<open>TypeError\<close> when \<open>data\<close> is \<open>None\<close>; \<open>len(more_data)\<close> on line 144 raises
  \<open>UnboundLocalError\<close> when \<open>more_data\<close> was never assigned.
\<close>

definition extraction :: "string option \<Rightarrow> string option \<Rightarrow> outcome" where
  "extraction d m =
     (case d of
        None \<Rightarrow> Raised TypeError
      | Some dat \<Rightarrow>
          (case parse_basic dat VIGOR_130_VALUES [] of
             Inl e \<Rightarrow> Raised e
           | Inr output \<Rightarrow>
               (case m of
                  None \<Rightarrow> Raised UnboundLocalError
                | Some mdat \<Rightarrow>
                    (case parse_more mdat VIGOR_130_MORE_VALUES output of
                       Inl e \<Rightarrow> Raised e
                     | Inr output' \<Rightarrow> Printed output'))))"

text \<open>
  The whole function: \<open>except Exception\<close> (line 105) swallows what it catches, and the
  extraction follows in every such case. The result is the outcome and what was written.
\<close>

definition get_vigor_stats :: "string \<Rightarrow> string \<Rightarrow> reader \<Rightarrow> outcome \<times> string list" where
  "get_vigor_stats username password rd =
     (let st = try_block username password rd
      in case raised st of
           None \<Rightarrow> (extraction (data st) (more_data st), written st)
         | Some e \<Rightarrow>
             if is_Exception e then (extraction (data st) (more_data st), written st)
             else (Raised e, written st))"

section \<open>\<open>main\<close>\<close>




section \<open>Properties of the key\<close>

lemma lower_char_idem: "lower_char (lower_char c) = lower_char c"
proof -
  have "of_char (char_of (of_char c + (32::nat)) :: char) = (of_char c + 32 :: nat)"
    if "(of_char c :: nat) \<le> 90"
    using that by (simp add: of_char_of)
  then show ?thesis
    by (auto simp add: lower_char_def Let_def)
qed

lemma lower_char_space: "lower_char c = CHR '' '' \<longleftrightarrow> c = CHR '' ''"
proof -
  have "(char_of (of_char c + (32::nat)) :: char) \<noteq> CHR '' ''"
    if "65 \<le> (of_char c :: nat)" "(of_char c :: nat) \<le> 90"
  proof
    assume "(char_of (of_char c + (32::nat)) :: char) = CHR '' ''"
    then have "(of_char (char_of (of_char c + (32::nat)) :: char) :: nat) = of_char (CHR '' '')"
      by simp
    with that show False by (simp add: of_char_of)
  qed
  then show ?thesis
    by (auto simp add: lower_char_def Let_def)
qed

lemma lower_char_underscore: "lower_char (CHR ''_'') = CHR ''_''"
  by (simp add: lower_char_def)

lemma replace_space: "py_replace '' '' ''_'' s = map (\<lambda>c. if c = CHR '' '' then CHR ''_'' else c) s"
  by (induction s) auto

lemma squash_Cons2: "py_replace ''  '' '' '' (a # b # cs) =
    (if a = CHR '' '' \<and> b = CHR '' '' then CHR '' '' # py_replace ''  '' '' '' cs
     else a # py_replace ''  '' '' '' (b # cs))"
  by auto

lemma squash_no_space: "CHR '' '' \<notin> set s \<Longrightarrow> py_replace ''  '' '' '' s = s"
  by (induction s) auto

lemma set_py_replace: "old \<noteq> [] \<Longrightarrow> set (py_replace old new s) \<subseteq> set s \<union> set new"
proof (induction old new s rule: py_replace.induct)
  case (1 new s)
  then show ?case by simp
next
  case (2 v va new)
  then show ?case by simp
next
  case (3 v va new c cs)
  show ?case
  proof (cases "prefix (v # va) (c # cs)")
    case True
    with 3 have "set (py_replace (v # va) new (drop (length (v # va)) (c # cs)))
        \<subseteq> set (drop (length (v # va)) (c # cs)) \<union> set new"
      by simp
    moreover have "set (drop (length (v # va)) (c # cs)) \<subseteq> set (c # cs)"
      by (rule set_drop_subset)
    ultimately show ?thesis using True by auto
  next
    case False
    with 3 show ?thesis by auto
  qed
qed

lemma key_of_label_no_space: "CHR '' '' \<notin> set (key_of_label x)"
  by (auto simp add: key_of_label_def replace_space)

lemma key_of_label_lower_fixed: "c \<in> set (key_of_label x) \<Longrightarrow> lower_char c = c"
proof -
  assume "c \<in> set (key_of_label x)"
  then obtain d where d: "d \<in> set (py_replace ''  '' '' '' (lower x))"
    and c: "c = (if d = CHR '' '' then CHR ''_'' else d)"
    by (auto simp add: key_of_label_def replace_space)
  from d set_py_replace [of "''  ''" "'' ''" "lower x"]
  have "d \<in> set (lower x) \<or> d = CHR '' ''" by auto
  then show ?thesis
    using c by (auto simp add: lower_def lower_char_idem lower_char_underscore)
qed

lemma squash_collapse:
  "\<not> sublist ''   '' s \<Longrightarrow> py_replace ''  '' '' '' s = collapse_spaces s"
proof (induction "length s" arbitrary: s rule: less_induct)
  case less
  show ?case
  proof (cases s)
    case Nil
    then show ?thesis by simp
  next
    case (Cons a s')
    note s = this
    show ?thesis
    proof (cases s')
      case Nil
      with s show ?thesis by simp
    next
      case (Cons b cs)
      note s' = this
      have nb: "\<not> sublist ''   '' (b # cs)" and nc: "\<not> sublist ''   '' cs"
        using less.prems s s' by (auto simp add: sublist_Cons_right)
      have ihb: "py_replace ''  '' '' '' (b # cs) = collapse_spaces (b # cs)"
        using less.hyps [of "b # cs"] nb s s' by simp
      have ihc: "py_replace ''  '' '' '' cs = collapse_spaces cs"
        using less.hyps [of cs] nc s s' by simp
      show ?thesis
      proof (cases "a = CHR '' '' \<and> b = CHR '' ''")
        case True
        have "collapse_spaces (CHR '' '' # cs) = CHR '' '' # collapse_spaces cs"
        proof (cases cs)
          case Nil
          then show ?thesis by simp
        next
          case (Cons c cs')
          with less.prems s s' True have "c \<noteq> CHR '' ''"
            by (auto simp add: sublist_Cons_right)
          with Cons show ?thesis by simp
        qed
        with True ihc show ?thesis
          unfolding s s' by (simp only: squash_Cons2 collapse_spaces.simps if_True simp_thms)
      next
        case False
        with ihb show ?thesis
          unfolding s s' by (simp only: squash_Cons2 collapse_spaces.simps if_False)
      qed
    qed
  qed
qed

lemma lower_char_space': "CHR '' '' = lower_char c \<longleftrightarrow> c = CHR '' ''"
  using lower_char_space [of c] by auto

lemma prefix_spaces_lower: "prefix ''   '' (map lower_char t) \<longleftrightarrow> prefix ''   '' t"
proof (cases t)
  case Nil
  then show ?thesis by simp
next
  case (Cons a t1)
  note t = this
  show ?thesis
  proof (cases t1)
    case Nil
    with t show ?thesis by simp
  next
    case (Cons b t2)
    note t1 = this
    show ?thesis
    proof (cases t2)
      case Nil
      with t t1 show ?thesis by simp
    next
      case (Cons c t3)
      with t t1 show ?thesis
        by (auto simp add: lower_char_space lower_char_space')
    qed
  qed
qed

lemma sublist_spaces_lower: "sublist ''   '' (lower t) \<longleftrightarrow> sublist ''   '' t"
proof (induction t)
  case Nil
  then show ?case by (simp add: lower_def)
next
  case (Cons a t)
  have "prefix ''   '' (map lower_char (a # t)) \<longleftrightarrow> prefix ''   '' (a # t)"
    by (rule prefix_spaces_lower)
  with Cons show ?case
    by (simp add: lower_def sublist_Cons_right)
qed

lemma key_of_desc_no_space: "CHR '' '' \<notin> set (key_of_desc x)"
  by (auto simp add: key_of_desc_def replace_space)

lemma key_of_desc_lower_fixed: "c \<in> set (key_of_desc x) \<Longrightarrow> lower_char c = c"
  by (auto simp add: key_of_desc_def replace_space lower_def lower_char_idem
      lower_char_underscore split: if_splits)

lemma collapse_no_pair: "\<not> sublist ''  '' s \<Longrightarrow> collapse_spaces s = s"
  by (induction s rule: collapse_spaces.induct) (auto simp add: sublist_Cons_right)

lemma prefix_pair_lower: "prefix ''  '' (map lower_char t) \<longleftrightarrow> prefix ''  '' t"
proof (cases t)
  case Nil
  then show ?thesis by simp
next
  case (Cons a t1)
  then show ?thesis
    by (cases t1) (auto simp add: lower_char_space lower_char_space')
qed

lemma sublist_pair_lower: "sublist ''  '' (lower t) \<longleftrightarrow> sublist ''  '' t"
proof (induction t)
  case Nil
  then show ?case by (simp add: lower_def)
next
  case (Cons a t)
  have "prefix ''  '' (map lower_char (a # t)) \<longleftrightarrow> prefix ''  '' (a # t)"
    by (rule prefix_pair_lower)
  with Cons show ?case
    by (simp add: lower_def sublist_Cons_right)
qed

text \<open>
  Claim C5, as the code has it. \<open>replace("  ", " ")\<close> makes one pass over
  non-overlapping pairs of spaces, so a run of three spaces keeps two of them. On every
  string with no run of three or more spaces the key built from a label is the
  specification's normal form: the string lowercased, every run of two spaces collapsed
  to one, the spaces that remain replaced by underscores. The key built from a
  description collapses nothing; it is the normal form on every string with no two
  adjacent spaces.
\<close>

theorem key_of_label_refines_spec:
  "(\<not> contains t ''   '' \<longrightarrow> key_of_label t = normalize_spec t) \<and>
   (\<not> contains t ''  '' \<longrightarrow> key_of_desc t = normalize_spec t)"
proof (intro conjI impI)
  assume "\<not> contains t ''   ''"
  then show "key_of_label t = normalize_spec t"
    by (simp add: key_of_label_def normalize_spec_def replace_space contains_def
        squash_collapse sublist_spaces_lower flip: lower_def)
next
  assume "\<not> contains t ''  ''"
  then have "collapse_spaces (lower t) = lower t"
    by (simp add: contains_def collapse_no_pair sublist_pair_lower)
  then show "key_of_desc t = normalize_spec t"
    by (simp add: key_of_desc_def normalize_spec_def replace_space flip: lower_def)
qed

theorem key_of_label_refines_spec_witness:
  "\<not> contains ''FE  ES Count'' ''   '' \<and>
   key_of_label ''FE  ES Count'' = normalize_spec ''FE  ES Count'' \<and>
   normalize_spec ''FE  ES Count'' = ''fe_es_count'' \<and>
   \<not> contains ''Loss Of Signal Count'' ''  '' \<and>
   key_of_desc ''Loss Of Signal Count'' = normalize_spec ''Loss Of Signal Count'' \<and>
   normalize_spec ''Loss Of Signal Count'' = ''loss_of_signal_count''"
proof -
  have h1: "\<not> contains ''FE  ES Count'' ''   ''"
    by (simp add: contains_def sublist_Cons_right)
  have h2: "\<not> contains ''Loss Of Signal Count'' ''  ''"
    by (simp add: contains_def sublist_Cons_right)
  have n1: "normalize_spec ''FE  ES Count'' = ''fe_es_count''"
    by code_simp
  have n2: "normalize_spec ''Loss Of Signal Count'' = ''loss_of_signal_count''"
    by code_simp
  from key_of_label_refines_spec [of "''FE  ES Count''"] h1
  have k1: "key_of_label ''FE  ES Count'' = normalize_spec ''FE  ES Count''"
    by blast
  from key_of_label_refines_spec [of "''Loss Of Signal Count''"] h2
  have k2: "key_of_desc ''Loss Of Signal Count'' = normalize_spec ''Loss Of Signal Count''"
    by blast
  from h1 h2 n1 n2 k1 k2 show ?thesis by blast
qed

text \<open>
  Claim C5, as the specification states it, fails on a run of three spaces: the code
  keeps two underscores where the specification's normal form has one. A description
  with two adjacent spaces keeps both.
\<close>

theorem key_of_label_three_spaces:
  "key_of_label ''a   b'' = ''a__b'' \<and> normalize_spec ''a   b'' = ''a_b'' \<and>
   key_of_desc ''a  b'' = ''a__b'' \<and> normalize_spec ''a  b'' = ''a_b''"
  by code_simp

text \<open>
  Claim C8: the key normalizer is idempotent. Normalizing a key again gives the same
  key, for the key built from a label and for the key built from a description.
\<close>

theorem key_normalizer_idempotent:
  "key_of_label (key_of_label x) = key_of_label x \<and>
   key_of_desc (key_of_desc x) = key_of_desc x"
proof
  have "lower (key_of_label x) = key_of_label x"
    unfolding lower_def by (rule map_idI) (rule key_of_label_lower_fixed)
  moreover have "py_replace ''  '' '' '' (key_of_label x) = key_of_label x"
    by (rule squash_no_space) (rule key_of_label_no_space)
  moreover have "py_replace '' '' ''_'' (key_of_label x) = key_of_label x"
    unfolding replace_space by (rule map_idI) (use key_of_label_no_space in auto)
  ultimately show "key_of_label (key_of_label x) = key_of_label x"
    by (simp add: key_of_label_def [of "key_of_label x"])
next
  have "lower (key_of_desc x) = key_of_desc x"
    unfolding lower_def by (rule map_idI) (rule key_of_desc_lower_fixed)
  moreover have "py_replace '' '' ''_'' (key_of_desc x) = key_of_desc x"
    unfolding replace_space by (rule map_idI) (use key_of_desc_no_space in auto)
  ultimately show "key_of_desc (key_of_desc x) = key_of_desc x"
    by (simp add: key_of_desc_def [of "key_of_desc x"])
qed

theorem key_normalizer_idempotent_witness:
  "key_of_label (key_of_label ''Xdsl Link  Times'') = key_of_label ''Xdsl Link  Times'' \<and>
   key_of_label ''Xdsl Link  Times'' = ''xdsl_link_times'' \<and>
   key_of_desc (key_of_desc ''CRC Error Count'') = key_of_desc ''CRC Error Count'' \<and>
   key_of_desc ''CRC Error Count'' = ''crc_error_count''"
proof -
  have a: "key_of_label ''Xdsl Link  Times'' = ''xdsl_link_times''"
    by code_simp
  have b: "key_of_desc ''CRC Error Count'' = ''crc_error_count''"
    by code_simp
  from key_normalizer_idempotent [of "''Xdsl Link  Times''"]
    key_normalizer_idempotent [of "''CRC Error Count''"] a b
  show ?thesis by blast
qed

section \<open>Properties of \<open>read_until\<close>\<close>

lemma snd_reader_read: "snd (reader_read rd) = tl rd"
  by (induction rd rule: reader_read.induct) auto

text \<open>
  Claim C2, as the code has it. \<open>read_until\<close> keeps no buffer: every read replaces
  \<open>data\<close>, and the test for the marker looks at that one chunk. When \<open>read_until\<close>
  returns, what it returns is the chunk of a single read (the \<open>k\<close>-th, within the
  retries), that chunk ends with the marker, the reader is left just after it, and every
  earlier read gave a chunk that does not end with the marker; those chunks are gone.
\<close>

theorem read_until_returns_one_chunk:
  "read_until rd txt n = (Inr dat, rd') \<Longrightarrow>
     endswith dat txt \<and>
     (\<exists>k<n. fst (reader_read (drop k rd)) = Inr dat \<and> rd' = drop (Suc k) rd \<and>
        (\<forall>j<k. \<exists>d. fst (reader_read (drop j rd)) = Inr d \<and> \<not> endswith d txt))"
proof (induction n arbitrary: rd)
  case 0
  then show ?case by simp
next
  case (Suc n)
  obtain r rd1 where rr: "reader_read rd = (r, rd1)" by (cases "reader_read rd")
  then have rd1: "rd1 = tl rd" using snd_reader_read [of rd] by simp
  show ?case
  proof (cases r)
    case (Inl e)
    with Suc.prems rr show ?thesis by simp
  next
    case (Inr d)
    show ?thesis
    proof (cases "endswith d txt")
      case True
      with Suc.prems rr Inr have "dat = d" "rd' = rd1" by simp_all
      with True rr Inr rd1 show ?thesis
        by (auto simp add: drop_Suc intro!: exI [of _ 0])
    next
      case False
      with Suc.prems rr Inr have "read_until rd1 txt n = (Inr dat, rd')" by simp
      from Suc.IH [OF this] obtain k where e: "endswith dat txt" and k: "k < n"
        and f: "fst (reader_read (drop k rd1)) = Inr dat" and r': "rd' = drop (Suc k) rd1"
        and a: "\<forall>j<k. \<exists>d. fst (reader_read (drop j rd1)) = Inr d \<and> \<not> endswith d txt"
        by blast
      have "\<forall>j<Suc k. \<exists>d. fst (reader_read (drop j rd)) = Inr d \<and> \<not> endswith d txt"
      proof (intro allI impI)
        fix j assume "j < Suc k"
        show "\<exists>d. fst (reader_read (drop j rd)) = Inr d \<and> \<not> endswith d txt"
        proof (cases j)
          case 0
          with rr Inr False show ?thesis by simp
        next
          case (Suc i)
          with \<open>j < Suc k\<close> a rd1 show ?thesis by (simp add: drop_Suc)
        qed
      qed
      with e k f r' rd1 show ?thesis
        by (auto simp add: drop_Suc intro!: exI [of _ "Suc k"])
    qed
  qed
qed

theorem read_until_returns_one_chunk_witness:
  "read_until [Chunk ''hello '', Chunk ''login Account:'', Chunk ''x''] ''Account:'' 5 =
     (Inr ''login Account:'', [Chunk ''x'']) \<and>
   endswith ''login Account:'' ''Account:'' \<and>
   (\<exists>k<5. fst (reader_read (drop k [Chunk ''hello '', Chunk ''login Account:'', Chunk ''x'']))
            = Inr ''login Account:'' \<and>
          [Chunk ''x''] = drop (Suc k) [Chunk ''hello '', Chunk ''login Account:'', Chunk ''x''] \<and>
          (\<forall>j<k. \<exists>d. fst (reader_read
                 (drop j [Chunk ''hello '', Chunk ''login Account:'', Chunk ''x''])) = Inr d \<and>
             \<not> endswith d ''Account:''))"
proof -
  have h: "read_until [Chunk ''hello '', Chunk ''login Account:'', Chunk ''x''] ''Account:'' 5 =
     (Inr ''login Account:'', [Chunk ''x''])"
    by code_simp
  from read_until_returns_one_chunk [OF h] h show ?thesis by blast
qed

text \<open>
  Claim C2, as the specification states it, fails. A marker that arrives in two chunks
  is not found: no single chunk ends with it, and the retries run out. And the bytes read
  before the chunk that ends with the marker are not in what is returned.
\<close>

theorem read_until_misses_split_marker:
  "read_until [Chunk ''Acc'', Chunk ''ount:''] ''Account:'' 5 =
     (Inl (Exception ''Did not find expected text''), []) \<and>
   read_until [Chunk ''hello '', Chunk ''Account:''] ''Account:'' 5 = (Inr ''Account:'', [])"
  by code_simp

lemma read_until_consumes: "\<exists>k\<le>n. snd (read_until rd txt n) = drop k rd"
proof (induction n arbitrary: rd)
  case 0
  then show ?case by simp
next
  case (Suc n)
  obtain r rd1 where rr: "reader_read rd = (r, rd1)" by (cases "reader_read rd")
  then have rd1: "rd1 = tl rd" using snd_reader_read [of rd] by simp
  show ?case
  proof (cases r)
    case (Inl e)
    with rr rd1 have "snd (read_until rd txt (Suc n)) = drop 1 rd" by (simp add: drop_Suc)
    then show ?thesis by (intro exI [of _ 1]) simp
  next
    case (Inr d)
    show ?thesis
    proof (cases "endswith d txt")
      case True
      with rr rd1 Inr have "snd (read_until rd txt (Suc n)) = drop 1 rd" by (simp add: drop_Suc)
      then show ?thesis by (intro exI [of _ 1]) simp
    next
      case False
      from Suc.IH [of rd1] obtain k where "k \<le> n" "snd (read_until rd1 txt n) = drop k rd1"
        by blast
      with rr rd1 Inr False have "snd (read_until rd txt (Suc n)) = drop (Suc k) rd"
        by (simp add: drop_Suc)
      with \<open>k \<le> n\<close> show ?thesis by (intro exI [of _ "Suc k"]) simp
    qed
  qed
qed

lemma read_until_exhausted:
  "(\<forall>k<n. \<exists>d. fst (reader_read (drop k rd)) = Inr d \<and> \<not> endswith d txt) \<Longrightarrow>
   read_until rd txt n = (Inl (Exception ''Did not find expected text''), drop n rd)"
proof (induction n arbitrary: rd)
  case 0
  then show ?case by simp
next
  case (Suc n)
  obtain r rd1 where rr: "reader_read rd = (r, rd1)" by (cases "reader_read rd")
  then have rd1: "rd1 = tl rd" using snd_reader_read [of rd] by simp
  from Suc.prems have "\<exists>d. fst (reader_read (drop 0 rd)) = Inr d \<and> \<not> endswith d txt"
    by blast
  with rr obtain d where d: "r = Inr d" "\<not> endswith d txt" by auto
  have "\<forall>k<n. \<exists>d. fst (reader_read (drop k rd1)) = Inr d \<and> \<not> endswith d txt"
  proof (intro allI impI)
    fix k assume "k < n"
    then have "Suc k < Suc n" by simp
    with Suc.prems have "\<exists>d. fst (reader_read (drop (Suc k) rd)) = Inr d \<and> \<not> endswith d txt"
      by blast
    then show "\<exists>d. fst (reader_read (drop k rd1)) = Inr d \<and> \<not> endswith d txt"
      by (simp add: rd1 drop_Suc)
  qed
  from Suc.IH [OF this] rr d rd1 show ?case by (simp add: drop_Suc)
qed

text \<open>
  Claim C3, as the code has it. The wait of \<open>read_until\<close> is bounded by the retry
  counter and by nothing else: it makes at most \<open>retries\<close> reads, and when each of the
  first \<open>retries\<close> reads gives a chunk that does not end with the marker, it has made
  exactly that many reads and raises the plain \<open>Exception("Did not find expected text")\<close>
  to its caller.
\<close>

theorem read_until_bounded_by_retries:
  "(\<exists>k\<le>n. snd (read_until rd marker n) = drop k rd) \<and>
   ((\<forall>k<n. \<exists>d. fst (reader_read (drop k rd)) = Inr d \<and> \<not> endswith d marker) \<longrightarrow>
      read_until rd marker n = (Inl (Exception ''Did not find expected text''), drop n rd))"
  using read_until_consumes [of n rd marker] read_until_exhausted [of n rd marker] by blast

theorem read_until_bounded_by_retries_witness:
  "(\<exists>k\<le>5. snd (read_until [Chunk ''login: ''] ''Account:'' 5) = drop k [Chunk ''login: '']) \<and>
   fst (reader_read [Chunk ''login: '']) = Inr ''login: '' \<and>
   \<not> endswith ''login: '' ''Account:'' \<and>
   fst (reader_read []) = Inr [] \<and>
   \<not> endswith [] ''Account:'' \<and>
   read_until [Chunk ''login: ''] ''Account:'' 5 =
     (Inl (Exception ''Did not find expected text''), [])"
proof -
  have e0: "\<not> endswith ''login: '' ''Account:''" by code_simp
  have e1: "\<not> endswith [] ''Account:''" by code_simp
  have h: "\<forall>k<5. \<exists>d. fst (reader_read (drop k [Chunk ''login: ''])) = Inr d \<and>
       \<not> endswith d ''Account:''"
  proof (intro allI impI)
    fix k :: nat assume "k < 5"
    show "\<exists>d. fst (reader_read (drop k [Chunk ''login: ''])) = Inr d \<and>
       \<not> endswith d ''Account:''"
      by (cases k) (simp_all add: e0 e1)
  qed
  from read_until_bounded_by_retries [of 5 "[Chunk ''login: '']" "''Account:''"] h
  have "(\<exists>k\<le>5. snd (read_until [Chunk ''login: ''] ''Account:'' 5) = drop k [Chunk ''login: ''])"
    and "read_until [Chunk ''login: ''] ''Account:'' 5 =
     (Inl (Exception ''Did not find expected text''), drop 5 [Chunk ''login: ''])"
    by blast+
  with e0 e1 show ?thesis by simp
qed

text \<open>
  Claim C3, as the specification states it, fails. After five reads that do not end with
  the marker the function gives up with the plain \<open>Exception\<close>, which is not a
  \<open>TimeoutError\<close>, although the next read would have given the marker: what ends the
  wait is the count of reads.
\<close>

theorem read_until_gives_up_after_five_reads:
  "read_until (replicate 5 (Chunk ''x'') @ [Chunk ''Account:'']) ''Account:'' 5 =
     (Inl (Exception ''Did not find expected text''), [Chunk ''Account:'']) \<and>
   fst (read_until (replicate 5 (Chunk ''x'') @ [Chunk ''Account:'']) ''Account:'' 5)
     \<noteq> Inl TimeoutError"
  by code_simp

section \<open>Failures of the session\<close>

text \<open>
  Claim C1 does not hold of the code. When the first marker never comes, the exception
  of \<open>read_until\<close> is caught on line 105 and the run goes on to the extraction with
  \<open>data = None\<close>: what leaves \<open>get_vigor_stats\<close> is the \<open>TypeError\<close> of \<open>len(data)\<close>
  on line 111. When the channel fails after the first answer was read, the first loop
  runs on that answer (here its \<open>int("abc")\<close> raises \<open>ValueError\<close>), and with a
  harmless first answer the run ends in the \<open>UnboundLocalError\<close> of \<open>len(more_data)\<close>
  on line 144. Only an exception that \<open>except Exception\<close> does not catch stops the run
  before the extraction.
\<close>

theorem handshake_failure_reaches_extraction:
  "try_block ''admin'' ''admin'' [] =
     \<lparr>raised = Some (Exception ''Did not find expected text''), data = None,
      more_data = None, written = []\<rparr> \<and>
   get_vigor_stats ''admin'' ''admin'' [] = (Raised TypeError, []) \<and>
   fst (get_vigor_stats ''admin'' ''admin''
         [Chunk ''Account:'', Chunk ''Password: '', Chunk ''> '',
          Chunk ''DS Actual Rate    :   abc   bps '', Fails ConnectionResetError])
     = Raised ValueError \<and>
   fst (get_vigor_stats ''admin'' ''admin''
         [Chunk ''Account:'', Chunk ''Password: '', Chunk ''> '',
          Chunk ''State : SHOWTIME '', Fails ConnectionResetError])
     = Raised UnboundLocalError \<and>
   fst (get_vigor_stats ''admin'' ''admin'' [Chunk ''Account:'', Fails CancelledError])
     = Raised CancelledError"
  by code_simp

section \<open>The exit status of \<open>main\<close>\<close>




section \<open>Properties of the patterns\<close>

lemma backtrack_Some:
  "backtrack k s n = Some (m, gs) \<Longrightarrow> 0 < m \<and> m \<le> n \<and> k (drop m s) = Some gs"
  by (induction n) (auto split: option.splits)

lemma take_takeWhile:
  "m \<le> length (takeWhile P s) \<Longrightarrow> take m s = take m (takeWhile P s)"
proof -
  assume m: "m \<le> length (takeWhile P s)"
  have "take m s = take m (takeWhile P s @ dropWhile P s)" by simp
  also have "\<dots> = take m (takeWhile P s)" using m by (simp del: takeWhile_dropWhile_id)
  finally show ?thesis .
qed

lemma take_run:
  assumes "0 < m" "m \<le> length (takeWhile P s)"
  shows "take m s \<noteq> [] \<and> (\<forall>c\<in>set (take m s). P c)"
proof -
  have t: "take m s = take m (takeWhile P s)" using assms(2) by (rule take_takeWhile)
  have "set (take m (takeWhile P s)) \<subseteq> set (takeWhile P s)" by (rule set_take_subset)
  then have "\<forall>c\<in>set (take m s). P c" using t by (auto dest: set_takeWhileD)
  moreover have "takeWhile P s \<noteq> []" using assms by auto
  then have "take m s \<noteq> []" using assms t by auto
  ultimately show ?thesis by simp
qed

lemma match_Group:
  "match_item (Group c) k s = Some gs \<Longrightarrow>
     \<exists>g gs' t. gs = g # gs' \<and> g \<noteq> [] \<and> (\<forall>x\<in>set g. in_cls c x) \<and> prefix g s \<and>
        k t = Some gs' \<and> suffix t s"
proof -
  assume a: "match_item (Group c) k s = Some gs"
  then obtain m gs' where b: "backtrack k s (length (takeWhile (in_cls c) s)) = Some (m, gs')"
    and g: "gs = take m s # gs'"
    by (auto split: option.splits)
  from backtrack_Some [OF b] have m: "0 < m" "m \<le> length (takeWhile (in_cls c) s)"
    and k: "k (drop m s) = Some gs'" by simp_all
  have "prefix (take m s) s" by (rule take_is_prefix)
  moreover have "suffix (drop m s) s" by (rule suffix_drop)
  ultimately show ?thesis using take_run [OF m] g k by blast
qed

lemma match_Plus:
  "match_item (Plus c) k s = Some gs \<Longrightarrow> \<exists>t. k t = Some gs \<and> suffix t s"
proof -
  assume a: "match_item (Plus c) k s = Some gs"
  then obtain m where b: "backtrack k s (length (takeWhile (in_cls c) s)) = Some (m, gs)"
    by (auto split: option.splits)
  from backtrack_Some [OF b] have "k (drop m s) = Some gs" by simp
  moreover have "suffix (drop m s) s" by (rule suffix_drop)
  ultimately show ?thesis by blast
qed

lemma match_Lit:
  "match_item (Lit l) k s = Some gs \<Longrightarrow> \<exists>t. k t = Some gs \<and> suffix t s"
proof -
  assume "match_item (Lit l) k s = Some gs"
  then have "k (drop (length l) s) = Some gs" by (simp split: if_splits)
  moreover have "suffix (drop (length l) s) s" by (rule suffix_drop)
  ultimately show ?thesis by blast
qed

lemma prefix_of_suffix_sublist: "prefix g t \<Longrightarrow> suffix t s \<Longrightarrow> sublist g s"
  by (auto simp add: prefix_def suffix_def sublist_def)

lemma match_more_regex:
  assumes "match_here (more_regex v) s = Some gs" "suffix s s0"
  shows "\<exists>g1 g2. gs = [g1, g2] \<and> g1 \<noteq> [] \<and> (\<forall>x\<in>set g1. is_digit x) \<and> sublist g1 s0 \<and>
           g2 \<noteq> [] \<and> (\<forall>x\<in>set g2. is_digit x) \<and> sublist g2 s0"
proof -
  let ?r6 = "[Group Digit]"
  let ?r5 = "Plus Space # ?r6"
  let ?r4 = "Group Digit # ?r5"
  let ?r3 = "Plus Space # ?r4"
  let ?r2 = "Lit '':'' # ?r3"
  let ?r1 = "Plus Space # ?r2"
  from assms(1) have "match_item (Lit (label v)) (match_here ?r1) s = Some gs"
    by (simp add: more_regex_def)
  from match_Lit [OF this] obtain t1 where t1: "match_here ?r1 t1 = Some gs" "suffix t1 s"
    by blast
  then have "match_item (Plus Space) (match_here ?r2) t1 = Some gs" by simp
  from match_Plus [OF this] obtain t2 where t2: "match_here ?r2 t2 = Some gs" "suffix t2 t1"
    by blast
  then have "match_item (Lit '':'') (match_here ?r3) t2 = Some gs" by simp
  from match_Lit [OF this] obtain t3 where t3: "match_here ?r3 t3 = Some gs" "suffix t3 t2"
    by blast
  then have "match_item (Plus Space) (match_here ?r4) t3 = Some gs" by simp
  from match_Plus [OF this] obtain t4 where t4: "match_here ?r4 t4 = Some gs" "suffix t4 t3"
    by blast
  then have "match_item (Group Digit) (match_here ?r5) t4 = Some gs" by simp
  from match_Group [OF this] obtain g1 gs1 t5 where g1: "gs = g1 # gs1" "g1 \<noteq> []"
    "\<forall>x\<in>set g1. in_cls Digit x" "prefix g1 t4"
    and t5: "match_here ?r5 t5 = Some gs1" "suffix t5 t4" by blast
  then have "match_item (Plus Space) (match_here ?r6) t5 = Some gs1" by simp
  from match_Plus [OF this] obtain t6 where t6: "match_here ?r6 t6 = Some gs1" "suffix t6 t5"
    by blast
  then have "match_item (Group Digit) (match_here []) t6 = Some gs1" by simp
  from match_Group [OF this] obtain g2 gs2 t7 where g2: "gs1 = g2 # gs2" "g2 \<noteq> []"
    "\<forall>x\<in>set g2. in_cls Digit x" "prefix g2 t6" and "match_here [] t7 = Some gs2" by blast
  then have e: "gs2 = []" by simp
  have s4: "suffix t4 s0"
    using t1(2) t2(2) t3(2) t4(2) assms(2) by (meson suffix_order.trans)
  have s6: "suffix t6 s0"
    using s4 t5(2) t6(2) by (meson suffix_order.trans)
  have "sublist g1 s0" using g1(4) s4 by (rule prefix_of_suffix_sublist)
  moreover have "sublist g2 s0" using g2(4) s6 by (rule prefix_of_suffix_sublist)
  ultimately show ?thesis using g1 g2 e by simp
qed

lemma re_search_Some:
  "re_search r s = Some gs \<Longrightarrow> \<exists>t. match_here r t = Some gs \<and> suffix t s"
proof (induction s)
  case Nil
  then show ?case by auto
next
  case (Cons c cs)
  show ?case
  proof (cases "match_here r (c # cs)")
    case None
    with Cons.prems have "re_search r cs = Some gs" by simp
    from Cons.IH [OF this] obtain t where "match_here r t = Some gs" "suffix t cs" by blast
    then show ?thesis by (blast intro: suffix_ConsI)
  next
    case (Some a)
    with Cons.prems have "match_here r (c # cs) = Some gs" by simp
    then show ?thesis by blast
  qed
qed

lemma search_more_regex:
  assumes "re_search (more_regex v) s = Some gs"
  shows "\<exists>g1 g2. gs = [g1, g2] \<and> g1 \<noteq> [] \<and> (\<forall>x\<in>set g1. is_digit x) \<and> sublist g1 s \<and>
           g2 \<noteq> [] \<and> (\<forall>x\<in>set g2. is_digit x) \<and> sublist g2 s"
proof -
  from re_search_Some [OF assms] obtain t where m: "match_here (more_regex v) t = Some gs"
    and t: "suffix t s" by blast
  from m t show ?thesis by (rule match_more_regex)
qed


lemma digit_not_int_space: "is_digit c \<Longrightarrow> \<not> int_space c"
  by (auto simp add: is_digit_def int_space_def Let_def)

lemma digit_not_sign: "is_digit c \<Longrightarrow> c \<noteq> CHR ''-'' \<and> c \<noteq> CHR ''+'' \<and> c \<noteq> CHR ''_''"
  by (auto simp add: is_digit_def Let_def)

lemma strip_digits:
  assumes "\<forall>c\<in>set g. is_digit c"
  shows "strip g = g"
proof -
  have a: "dropWhile int_space g = g"
    using assms by (cases g) (auto simp add: digit_not_int_space)
  have "dropWhile int_space (rev g) = rev g"
    using assms
    by (cases "rev g") (auto simp add: digit_not_int_space dest!: arg_cong [where f = set])
  with a show ?thesis by (simp add: strip_def)
qed

lemma digit_groups_digits: "g \<noteq> [] \<Longrightarrow> \<forall>c\<in>set g. is_digit c \<Longrightarrow> digit_groups g"
  by (induction g rule: digit_groups.induct) (auto simp add: digit_not_sign)

lemma py_int_digits:
  assumes "g \<noteq> []" "\<forall>c\<in>set g. is_digit c"
  shows "py_int g =
    (if length g \<le> int_max_str_digits then Inr (decimal g) else Inl ValueError)"
proof -
  from assms have h: "is_digit (hd g)" by (cases g) auto
  have f: "filter is_digit g = g" using assms(2) by (simp add: filter_id_conv)
  from h have "hd g \<noteq> CHR ''-''" "hd g \<noteq> CHR ''+''" using digit_not_sign by blast+
  with assms f show ?thesis
    by (simp add: py_int_def strip_digits digit_groups_digits Let_def)
qed






section \<open>Properties of the second loop\<close>

lemma apply_coerce_digits:
  assumes "g \<noteq> []" "\<forall>c\<in>set g. is_digit c"
  shows "apply_coerce None g = Inr (VStr g)"
    and "apply_coerce (Some CoerceBool) g = Inr (VBool True)"
    and "apply_coerce (Some CoerceInt) g =
      (if length g \<le> int_max_str_digits then Inr (VInt (decimal g)) else Inl ValueError)"
  using assms by (simp_all add: py_int_digits py_bool_def)

lemma parse_more_step:
  obtains (miss) "re_search (more_regex v) dat = None"
      "parse_more dat (v # vs) out = parse_more dat vs out"
  | (hit) g1 g2 x1 x2 where "re_search (more_regex v) dat = Some [g1, g2]"
      "apply_coerce (coerce v) g1 = Inr x1" "apply_coerce (coerce v) g2 = Inr x2"
      "coerce v = Some CoerceBool \<longrightarrow> x1 = VBool True \<and> x2 = VBool True"
      "parse_more dat (v # vs) out =
         parse_more dat vs
           (AList.update (more_key v @ ''_far'') x2
             (AList.update (more_key v @ ''_near'') x1 out))"
  | (fail) g where "sublist g dat" "\<forall>c\<in>set g. is_digit c" "int_max_str_digits < length g"
      "parse_more dat (v # vs) out = Inl ValueError"
proof (cases "re_search (more_regex v) dat")
  case None
  then show ?thesis by (intro miss) simp_all
next
  case (Some gs)
  from search_more_regex [OF this] obtain g1 g2 where g: "gs = [g1, g2]"
    and g1: "g1 \<noteq> []" "\<forall>x\<in>set g1. is_digit x" and s1: "sublist g1 dat"
    and g2: "g2 \<noteq> []" "\<forall>x\<in>set g2. is_digit x" and s2: "sublist g2 dat" by blast
  note c1 = apply_coerce_digits [OF g1] and c2 = apply_coerce_digits [OF g2]
  have r: "re_search (more_regex v) dat = Some [g1, g2]" using Some g by simp
  consider (int1) "coerce v = Some CoerceInt" "int_max_str_digits < length g1"
    | (int2) "coerce v = Some CoerceInt" "length g1 \<le> int_max_str_digits"
        "int_max_str_digits < length g2"
    | (int) "coerce v = Some CoerceInt" "length g1 \<le> int_max_str_digits"
        "length g2 \<le> int_max_str_digits"
    | (bool) "coerce v = Some CoerceBool"
    | (none) "coerce v = None"
  proof (cases "coerce v")
    case None
    then show ?thesis by (rule none)
  next
    case (Some k)
    then show ?thesis
      using int1 int2 int bool by (cases k) (auto simp add: not_le [symmetric])
  qed
  then show ?thesis
  proof cases
    case int1
    have "parse_more dat (v # vs) out = Inl ValueError"
      using r int1 c1(3) by simp
    with s1 g1(2) int1(2) show ?thesis by (rule fail)
  next
    case int2
    have "parse_more dat (v # vs) out = Inl ValueError"
      using r int2 c1(3) c2(3) by simp
    with s2 g2(2) int2(3) show ?thesis by (rule fail)
  next
    case int
    show ?thesis
      by (rule hit [of g1 g2 "VInt (decimal g1)" "VInt (decimal g2)"])
        (use r int c1(3) c2(3) in simp_all)
  next
    case bool
    show ?thesis
      by (rule hit [of g1 g2 "VBool True" "VBool True"]) (use r bool c1(2) c2(2) in simp_all)
  next
    case none
    show ?thesis
      by (rule hit [of g1 g2 "VStr g1" "VStr g2"]) (use r none c1(1) c2(1) in simp_all)
  qed
qed


lemma near_far_distinct: "x @ ''_near'' \<noteq> y @ ''_far''"
proof
  assume "x @ ''_near'' = y @ ''_far''"
  then have "rev (x @ ''_near'') = rev (y @ ''_far'')" by simp
  then show False by simp
qed

lemma keys_update: "fst ` set (AList.update k x al) = insert k (fst ` set al)"
  by (simp add: AList.dom_update)

lemma parse_more_pairs:
  "parse_more dat vs out = Inr out' \<Longrightarrow>
   (b @ ''_near'' \<in> fst ` set out \<longleftrightarrow> b @ ''_far'' \<in> fst ` set out) \<Longrightarrow>
   (b @ ''_near'' \<in> fst ` set out' \<longleftrightarrow> b @ ''_far'' \<in> fst ` set out')"
proof (induction vs arbitrary: out)
  case Nil
  then show ?case by simp
next
  case (Cons v vs)
  show ?case
  proof (rule parse_more_step [of v dat vs out])
    assume "parse_more dat (v # vs) out = parse_more dat vs out"
    with Cons show ?thesis by simp
  next
    fix g1 g2 x1 x2
    let ?o = "AList.update (more_key v @ ''_far'') x2
             (AList.update (more_key v @ ''_near'') x1 out)"
    assume "parse_more dat (v # vs) out = parse_more dat vs ?o"
    with Cons.prems have p: "parse_more dat vs ?o = Inr out'" by simp
    have "b @ ''_near'' \<in> fst ` set ?o \<longleftrightarrow> b @ ''_far'' \<in> fst ` set ?o"
      using Cons.prems(2) near_far_distinct [of b "more_key v"]
        near_far_distinct [of "more_key v" b]
      by (auto simp add: keys_update)
    from Cons.IH [OF p this] show ?thesis .
  next
    assume "parse_more dat (v # vs) out = Inl ValueError"
    with Cons.prems show ?thesis by simp
  qed
qed

lemma parse_basic_keys:
  "parse_basic dat vs out = Inr out' \<Longrightarrow>
   fst ` set out' \<subseteq> fst ` set out \<union> (\<lambda>v. key_of_label (label v)) ` set vs"
proof (induction vs arbitrary: out)
  case Nil
  then show ?case by simp
next
  case (Cons v vs)
  show ?case
  proof (cases "parse_basic dat (v # vs) out = parse_basic dat vs out")
    case True
    with Cons.prems have "parse_basic dat vs out = Inr out'" by simp
    from Cons.IH [OF this] show ?thesis by auto
  next
    case False
    then obtain x where "parse_basic dat vs (AList.update (key_of_label (label v)) x out)
         = Inr out'"
      using Cons.prems by (auto split: if_splits option.splits list.splits sum.splits)
    from Cons.IH [OF this] show ?thesis by (auto simp add: keys_update)
  qed
qed


lemma parse_more_bool_key:
  "parse_more dat vs out = Inr out' \<Longrightarrow>
   \<forall>v\<in>set vs. coerce v \<noteq> Some CoerceBool \<longrightarrow>
       more_key v @ ''_near'' \<noteq> k \<and> more_key v @ ''_far'' \<noteq> k \<Longrightarrow>
   \<forall>x. map_of out k = Some x \<longrightarrow> x = VBool True \<Longrightarrow>
   map_of out' k = Some x \<Longrightarrow> x = VBool True"
proof (induction vs arbitrary: out)
  case Nil
  then show ?case by simp
next
  case (Cons v vs)
  from Cons.prems(2) have rest: "\<forall>v\<in>set vs. coerce v \<noteq> Some CoerceBool \<longrightarrow>
       more_key v @ ''_near'' \<noteq> k \<and> more_key v @ ''_far'' \<noteq> k" by simp
  show ?case
  proof (rule parse_more_step [of v dat vs out])
    assume "parse_more dat (v # vs) out = parse_more dat vs out"
    with Cons.prems have "parse_more dat vs out = Inr out'" by simp
    from Cons.IH [OF this rest Cons.prems(3,4)] show ?thesis .
  next
    fix g1 g2 x1 x2
    let ?o = "AList.update (more_key v @ ''_far'') x2
             (AList.update (more_key v @ ''_near'') x1 out)"
    assume b: "coerce v = Some CoerceBool \<longrightarrow> x1 = VBool True \<and> x2 = VBool True"
    assume "parse_more dat (v # vs) out = parse_more dat vs ?o"
    with Cons.prems have p: "parse_more dat vs ?o = Inr out'" by simp
    have "\<forall>x. map_of ?o k = Some x \<longrightarrow> x = VBool True"
      using Cons.prems(2,3) b by (auto simp add: AList.update_conv')
    from Cons.IH [OF p rest this Cons.prems(4)] show ?thesis .
  next
    assume "parse_more dat (v # vs) out = Inl ValueError"
    with Cons.prems show ?thesis by simp
  qed
qed


section \<open>A capture that is too long for \<open>int\<close>\<close>







section \<open>The keys of the two tables\<close>

lemma basic_keys_no_suffix:
  "list_all (\<lambda>k. \<not> suffix ''_near'' k \<and> \<not> suffix ''_far'' k)
     (map (\<lambda>v. key_of_label (label v)) VIGOR_130_VALUES)"
  by code_simp

lemma paired_key_not_basic:
  "b @ ''_near'' \<notin> (\<lambda>v. key_of_label (label v)) ` set VIGOR_130_VALUES \<and>
   b @ ''_far'' \<notin> (\<lambda>v. key_of_label (label v)) ` set VIGOR_130_VALUES"
proof -
  have n: "\<not> suffix ''_near'' k \<and> \<not> suffix ''_far'' k"
    if "k \<in> set (map (\<lambda>v. key_of_label (label v)) VIGOR_130_VALUES)" for k
    using that basic_keys_no_suffix unfolding list_all_iff by blast
  have "suffix ''_near'' (b @ ''_near'')" "suffix ''_far'' (b @ ''_far'')"
    by (rule suffixI [OF refl])+
  with n [of "b @ ''_near''"] n [of "b @ ''_far''"] show ?thesis
    unfolding set_map by blast
qed

lemma more_coerce_bool:
  assumes "v \<in> set VIGOR_130_MORE_VALUES"
  shows "coerce v = Some CoerceBool \<longleftrightarrow>
     more_key v \<in> {''trellis'', ''bitswap'', ''retxenable'', ''virtualnoise''}"
proof -
  have "list_all (\<lambda>v. coerce v = Some CoerceBool \<longleftrightarrow>
     more_key v \<in> set [''trellis'', ''bitswap'', ''retxenable'', ''virtualnoise''])
     VIGOR_130_MORE_VALUES"
    by code_simp
  with assms show ?thesis by (simp add: list_all_iff)
qed




lemma extraction_Printed:
  assumes "extraction d m = Printed out"
  obtains dat mdat o1 where "d = Some dat" "m = Some mdat"
    "parse_basic dat VIGOR_130_VALUES [] = Inr o1"
    "parse_more mdat VIGOR_130_MORE_VALUES o1 = Inr out"
  using assms by (auto simp add: extraction_def split: option.splits sum.splits)

lemma basic_keys:
  assumes "parse_basic dat VIGOR_130_VALUES [] = Inr o1"
  shows "b @ ''_near'' \<notin> fst ` set o1" "b @ ''_far'' \<notin> fst ` set o1"
proof -
  from parse_basic_keys [OF assms]
  have "fst ` set o1 \<subseteq> (\<lambda>v. key_of_label (label v)) ` set VIGOR_130_VALUES" by simp
  with paired_key_not_basic [of b]
  show "b @ ''_near'' \<notin> fst ` set o1" "b @ ''_far'' \<notin> fst ` set o1" by blast+
qed

lemma trellis_run:
  "extraction (Some []) (Some ''Trellis : 0 1'') =
     Printed [(''trellis_near'', VBool True), (''trellis_far'', VBool True)]"
  by code_simp

lemma trellis_field: "(fld ''Trellis'' None None (Some CoerceBool)) \<in> set VIGOR_130_MORE_VALUES"
  by (simp add: VIGOR_130_MORE_VALUES_def)

lemma trellis_key: "more_key (fld ''Trellis'' None None (Some CoerceBool)) = ''trellis''"
  by code_simp


section \<open>The record of the extraction\<close>

text \<open>
  Claim C6: for every pair of input blobs and every field of \<open>VIGOR_130_MORE_VALUES\<close>,
  the record that the extraction prints holds the key ending in \<open>_near\<close> and the key
  ending in \<open>_far\<close> of that field, or neither of the two.
\<close>

theorem paired_keys_both_or_neither:
  "extraction d m = Printed out \<Longrightarrow> v \<in> set VIGOR_130_MORE_VALUES \<Longrightarrow>
     (more_key v @ ''_near'' \<in> fst ` set out \<longleftrightarrow> more_key v @ ''_far'' \<in> fst ` set out)"
proof -
  assume e: "extraction d m = Printed out"
  from e obtain dat mdat o1 where b: "parse_basic dat VIGOR_130_VALUES [] = Inr o1"
    and p: "parse_more mdat VIGOR_130_MORE_VALUES o1 = Inr out"
    by (rule extraction_Printed)
  from basic_keys [OF b, of "more_key v"]
  have "more_key v @ ''_near'' \<in> fst ` set o1 \<longleftrightarrow> more_key v @ ''_far'' \<in> fst ` set o1"
    by simp
  with p show ?thesis by (rule parse_more_pairs)
qed

theorem paired_keys_both_or_neither_witness:
  "extraction (Some []) (Some ''Trellis : 0 1'') =
     Printed [(''trellis_near'', VBool True), (''trellis_far'', VBool True)] \<and>
   (fld ''Trellis'' None None (Some CoerceBool)) \<in> set VIGOR_130_MORE_VALUES \<and>
   (more_key (fld ''Trellis'' None None (Some CoerceBool)) @ ''_near''
      \<in> fst ` set [(''trellis_near'', VBool True), (''trellis_far'', VBool True)]) =
   (more_key (fld ''Trellis'' None None (Some CoerceBool)) @ ''_far''
      \<in> fst ` set [(''trellis_near'', VBool True), (''trellis_far'', VBool True)])"
  using paired_keys_both_or_neither [OF trellis_run trellis_field] trellis_run trellis_field
  by blast

text \<open>
  Claim C9: for every field whose coercion is \<open>bool\<close> (Trellis, Bitswap, ReTxEnable,
  VirtualNoise), whatever the printed record holds under the field's \<open>_near\<close> or \<open>_far\<close>
  key is the boolean true. The pattern captures one or more digits, and \<open>bool\<close> of a
  string that is not empty is true, so the token \<open>0\<close> gives true as well; a token that
  is not made of digits gives no match and no key.
\<close>

theorem boolean_fields_store_true:
  "extraction d m = Printed out \<Longrightarrow> v \<in> set VIGOR_130_MORE_VALUES \<Longrightarrow>
   coerce v = Some CoerceBool \<Longrightarrow>
   k = more_key v @ ''_near'' \<or> k = more_key v @ ''_far'' \<Longrightarrow>
   map_of out k = Some x \<Longrightarrow> x = VBool True"
proof -
  assume e: "extraction d m = Printed out" and v: "v \<in> set VIGOR_130_MORE_VALUES"
    and c: "coerce v = Some CoerceBool"
    and k: "k = more_key v @ ''_near'' \<or> k = more_key v @ ''_far''"
    and x: "map_of out k = Some x"
  from e obtain dat mdat o1 where b: "parse_basic dat VIGOR_130_VALUES [] = Inr o1"
    and p: "parse_more mdat VIGOR_130_MORE_VALUES o1 = Inr out"
    by (rule extraction_Printed)
  have "k \<notin> fst ` set o1"
  proof (rule disjE [OF k])
    assume "k = more_key v @ ''_near''"
    with basic_keys(1) [OF b, of "more_key v"] show ?thesis by simp
  next
    assume "k = more_key v @ ''_far''"
    with basic_keys(2) [OF b, of "more_key v"] show ?thesis by simp
  qed
  then have "map_of o1 k = None" by (simp add: map_of_eq_None_iff)
  then have i: "\<forall>x. map_of o1 k = Some x \<longrightarrow> x = VBool True" by simp
  have a: "\<forall>u\<in>set VIGOR_130_MORE_VALUES. coerce u \<noteq> Some CoerceBool \<longrightarrow>
       more_key u @ ''_near'' \<noteq> k \<and> more_key u @ ''_far'' \<noteq> k"
  proof (intro ballI impI)
    fix u assume u: "u \<in> set VIGOR_130_MORE_VALUES" and nb: "coerce u \<noteq> Some CoerceBool"
    from more_coerce_bool [OF u] more_coerce_bool [OF v] nb c
    have "more_key u \<noteq> more_key v" by auto
    with k near_far_distinct [of "more_key u" "more_key v"]
      near_far_distinct [of "more_key v" "more_key u"]
    show "more_key u @ ''_near'' \<noteq> k \<and> more_key u @ ''_far'' \<noteq> k" by auto
  qed
  from p a i x show ?thesis by (rule parse_more_bool_key)
qed

theorem boolean_fields_store_true_witness:
  "extraction (Some []) (Some ''Trellis : 0 1'') =
     Printed [(''trellis_near'', VBool True), (''trellis_far'', VBool True)] \<and>
   (fld ''Trellis'' None None (Some CoerceBool)) \<in> set VIGOR_130_MORE_VALUES \<and>
   coerce (fld ''Trellis'' None None (Some CoerceBool)) = Some CoerceBool \<and>
   ''trellis_near'' = more_key (fld ''Trellis'' None None (Some CoerceBool)) @ ''_near'' \<and>
   map_of [(''trellis_near'', VBool True), (''trellis_far'', VBool True)] ''trellis_near''
     = Some (VBool True)"
proof -
  have c: "coerce (fld ''Trellis'' None None (Some CoerceBool)) = Some CoerceBool" by (simp add: fld_def)
  have k: "''trellis_near'' = more_key (fld ''Trellis'' None None (Some CoerceBool)) @ ''_near'' \<or>
           ''trellis_near'' = more_key (fld ''Trellis'' None None (Some CoerceBool)) @ ''_far''"
    by (simp add: trellis_key)
  have x: "map_of [(''trellis_near'', VBool True), (''trellis_far'', VBool True)]
      ''trellis_near'' = Some (VBool True)" by simp
  from boolean_fields_store_true [OF trellis_run trellis_field c k x]
    trellis_run trellis_field c x
  show ?thesis by (simp add: trellis_key)
qed







end
